theory Spec2Isabelle
  imports Main "HOL-Library.Word" "HOL-Library.Multiset"
begin

unbundle bit_operations_syntax

section \<open>Yamaha PSS-790 skeleton driver\<close>

text \<open>
  The development covers the two variants of the driver: \<^verbatim>\<open>src/mame/yamaha/ympss790.cpp\<close>,
  whose \<^verbatim>\<open>driver_start\<close> keeps the PSR-400 descrambling loop inside a comment, and the
  later variant, which moves the loop into \<^verbatim>\<open>transmute_program_rom\<close> with the PSS-790
  wiring table.  Both share \<^verbatim>\<open>machine_start\<close> and \<^verbatim>\<open>interrupt_hack\<close>.
\<close>

subsection \<open>Machine integers and bytes\<close>

type_synonym u8 = "8 word"
type_synonym u32 = "32 word"
type_synonym u64 = "64 word"

subsection \<open>Bit helpers of the emulator core\<close>

text \<open>Modelled from the spec: the helper \<^verbatim>\<open>BIT\<close> of the emulator core, which the
  driver's \<^verbatim>\<open>bitswap\<close> call rests on, is not part of the source at hand.  \<open>BIT x n\<close> is
  address bit \<open>n\<close> of \<open>x\<close>, as a value 0 or 1.\<close>

definition BIT :: "u32 \<Rightarrow> nat \<Rightarrow> u32" where
  "BIT x n = drop_bit n x AND 1"

text \<open>Modelled from the spec: the helper template \<^verbatim>\<open>bitswap<B>\<close> of the emulator core
  is called by the driver but is not part of the source at hand.  The spec describes the
  call as remapping the chosen address bits according to a fixed wiring table into a new
  9-bit index, and the table in the driver's comment lists the address lines from the most
  significant bit of the result downwards.  So \<open>bitswap val [b\<^sub>k, \<dots>, b\<^sub>0]\<close> puts bit
  \<open>b\<^sub>i\<close> of \<open>val\<close> at position \<open>i\<close> of the result.\<close>

fun bitswap :: "u32 \<Rightarrow> nat list \<Rightarrow> u32" where
  "bitswap val [] = 0"
| "bitswap val (b # c) = push_bit (length c) (BIT val b) OR bitswap val c"

subsection \<open>The descrambling transform\<close>

text \<open>The constants of \<^verbatim>\<open>transmute_program_rom\<close>.\<close>

definition chunk_size :: nat where
  "chunk_size = 0x20000"

definition block_size :: nat where
  "block_size = 0x100"

definition block_count :: nat where
  "block_count = chunk_size div block_size"

text \<open>
  The PSS-790 scrambling: the arguments of \<^verbatim>\<open>bitswap<9>\<close> as the source lists them, and the
  offset \<^verbatim>\<open>bitswap<9>(block_offset, \<dots>) << 8\<close> computed from them in 32-bit arithmetic.
\<close>

definition pss790_scrambling :: "nat list" where
  "pss790_scrambling = [10, 15, 11, 9, 8, 13, 14, 16, 12]"

definition transmuted_offset :: "u32 \<Rightarrow> u32" where
  "transmuted_offset block_offset = push_bit 8 (bitswap block_offset pss790_scrambling)"

text \<open>
  \<^verbatim>\<open>std::copy(first, last, d)\<close> and \<^verbatim>\<open>std::copy_n(first, n, d)\<close> on byte buffers, with
  the positions given as indices (\<open>i\<close> for \<^verbatim>\<open>first\<close>, \<open>j\<close> for \<^verbatim>\<open>last\<close>; the copy of a
  whole chunk writes from the start of its destination).  A range that is not inside its buffer is undefined
  behaviour in the source; the model returns \<open>None\<close> there.
\<close>

definition std_copy :: "u8 list \<Rightarrow> nat \<Rightarrow> nat \<Rightarrow> u8 list \<Rightarrow> u8 list option" where
  "std_copy src i j dst =
     (if i \<le> j \<and> j \<le> length src \<and> j - i \<le> length dst
      then Some (take (j - i) (drop i src) @ drop (j - i) dst)
      else None)"

definition std_copy_n :: "u8 list \<Rightarrow> nat \<Rightarrow> nat \<Rightarrow> u8 list \<Rightarrow> nat \<Rightarrow> u8 list option" where
  "std_copy_n src i n dst d =
     (if i + n \<le> length src \<and> d + n \<le> length dst
      then Some (take d dst @ take n (drop i src) @ drop (d + n) dst)
      else None)"

text \<open>
  The inner loop \<^verbatim>\<open>for (int blocks = block_count; blocks-- > 0; block_offset += block_size)\<close>:
  the first argument is the number of iterations still to run; the loop returns the
  advanced \<open>block_offset\<close> together with the rewritten region.
\<close>

fun copy_blocks :: "nat \<Rightarrow> u8 list \<Rightarrow> u32 \<Rightarrow> u8 list \<Rightarrow> (u32 \<times> u8 list) option" where
  "copy_blocks 0 chunk block_offset base = Some (block_offset, base)"
| "copy_blocks (Suc blocks) chunk block_offset base =
     (case std_copy_n chunk (unat (transmuted_offset block_offset)) block_size
             base (unat block_offset) of
        None \<Rightarrow> None
      | Some base' \<Rightarrow> copy_blocks blocks chunk (block_offset + of_nat block_size) base')"

text \<open>
  The outer loop \<^verbatim>\<open>for (u32 block_offset = 0; block_offset < rom_size; )\<close>.  The source
  names the start of the region \<^verbatim>\<open>rom\<close> and the offset \<^verbatim>\<open>offset\<close> in the first copy,
  names it declares nowhere; they are read as \<^verbatim>\<open>base\<close> and \<^verbatim>\<open>block_offset\<close>, as in the
  PSR-400 loop the function was taken from.  The end index \<^verbatim>\<open>offset + chunk_size\<close> is
  computed in 32 bits.
\<close>

function transmute_loop :: "u32 \<Rightarrow> u32 \<Rightarrow> u8 list \<Rightarrow> u8 list \<Rightarrow> u8 list option" where
  "transmute_loop rom_size block_offset chunk base =
     (if block_offset < rom_size then
        (case std_copy base (unat block_offset) (unat (block_offset + of_nat chunk_size)) chunk of
           None \<Rightarrow> None
         | Some chunk' \<Rightarrow>
             (case copy_blocks block_count chunk' block_offset base of
                None \<Rightarrow> None
              | Some (block_offset', base') \<Rightarrow>
                  transmute_loop rom_size block_offset' chunk' base'))
      else Some base)"
  by pat_completeness auto
termination
proof (relation "measure (\<lambda>(rom_size, block_offset, chunk, base). unat rom_size - unat block_offset)",
    goal_cases)
  case 1
  show ?case by simp
next
  case (2 rom_size block_offset chunk base chunk' r block_offset' base')
  have adv: "copy_blocks n c off b = Some (off', b') \<Longrightarrow> off' = off + of_nat (n * block_size)"
    for n c off b off' b'
  proof (induction n arbitrary: off b)
    case 0
    then show ?case by simp
  next
    case (Suc n)
    from Suc.prems obtain b1 where
      "copy_blocks n c (off + of_nat block_size) b1 = Some (off', b')"
      by (auto split: option.splits)
    then have "off' = (off + of_nat block_size) + of_nat (n * block_size)"
      by (rule Suc.IH)
    then show ?case by (simp add: algebra_simps)
  qed
  from 2 have "copy_blocks block_count chunk' block_offset base = Some (block_offset', base')"
    by simp
  then have "block_offset' = block_offset + of_nat (block_count * block_size)"
    by (rule adv)
  then have eq: "block_offset' = block_offset + 0x20000"
    by (simp add: block_count_def block_size_def chunk_size_def)
  from 2 have "unat block_offset \<le> unat (block_offset + 0x20000)"
    by (simp add: std_copy_def chunk_size_def split: if_splits)
  moreover have "block_offset + 0x20000 \<noteq> block_offset"
    by simp
  ultimately have "unat block_offset < unat block_offset'"
    unfolding eq by (metis le_neq_implies_less word_unat_eq_iff)
  moreover from 2 have "unat block_offset < unat rom_size"
    by (simp add: word_less_nat_alt)
  ultimately show ?case by simp
qed

declare transmute_loop.simps [simp del]

text \<open>
  \<^verbatim>\<open>transmute_program_rom\<close>: the memory region is its byte vector; \<^verbatim>\<open>region->bytes()\<close> is
  read into a \<^verbatim>\<open>u32\<close>, and the temporary \<^verbatim>\<open>std::vector<u8> chunk(chunk_size)\<close> starts
  zeroed.
\<close>

definition transmute_program_rom :: "u8 list \<Rightarrow> u8 list option" where
  "transmute_program_rom region =
     transmute_loop (of_nat (length region)) 0 (replicate chunk_size 0) region"

text \<open>
  Proof vocabulary, not part of the driver: \<open>src_index a\<close> is the position of the scrambled
  image whose byte the transform stores at position \<open>a\<close> (same chunk, permuted block, same
  place in the block), and \<open>transmute_times n\<close> runs the transform \<open>n\<close> times in a row.
\<close>

definition src_index :: "nat \<Rightarrow> nat" where
  "src_index a =
     (a div chunk_size) * chunk_size + unat (transmuted_offset (of_nat a)) + a mod block_size"


subsection \<open>The CPU state interface and the timer\<close>

text \<open>Modelled from the spec: the state indices of the CPU core (\<^verbatim>\<open>mn1880_device\<close>) are
  not part of the source at hand.  The driver names one of them, \<^verbatim>\<open>MN1880_IF\<close>, the
  interrupt-flag register of the spec; the others are numbered.\<close>

datatype state_entry = MN1880_IF | MN1880_other nat

text \<open>Modelled from the spec: the CPU device, of which the source at hand uses the state
  interface only.  The spec speaks of the interrupt-flag register as plain CPU-exposed
  state, so the device is a table of 64-bit state values.\<close>

type_synonym cpu_device = "state_entry \<Rightarrow> u64"

text \<open>Modelled from the spec: \<^verbatim>\<open>state_int\<close> of the device state interface, not part of
  the source at hand: it reads one entry of the table.\<close>

definition state_int :: "cpu_device \<Rightarrow> state_entry \<Rightarrow> u64" where
  "state_int cpu index = cpu index"

text \<open>Modelled from the spec: \<^verbatim>\<open>set_state_int\<close> of the device state interface, not
  part of the source at hand: it writes one entry of the table and leaves the others.\<close>

definition set_state_int :: "cpu_device \<Rightarrow> state_entry \<Rightarrow> u64 \<Rightarrow> cpu_device" where
  "set_state_int cpu index v = cpu(index := v)"

text \<open>Modelled from the spec: \<^verbatim>\<open>attotime\<close> of the host framework is not part of the
  source at hand.  Emulated time is a count of attoseconds.\<close>

type_synonym attotime = nat

text \<open>Modelled from the spec: \<^verbatim>\<open>attotime::from_msec\<close>, not part of the source at hand; a
  millisecond is \<open>10\<^sup>1\<^sup>5\<close> attoseconds.\<close>

definition from_msec :: "nat \<Rightarrow> attotime" where
  "from_msec m = m * 10 ^ 15"

text \<open>Modelled from the spec: \<^verbatim>\<open>emu_timer\<close> of the host scheduler, not part of the source
  at hand.  The spec's timer is periodic: it has a next expiry and a fixed period.\<close>

record emu_timer =
  enabled :: bool
  param :: int
  expire :: attotime
  period :: attotime

text \<open>Modelled from the spec: \<^verbatim>\<open>timer_alloc\<close>, not part of the source at hand; a fresh
  timer is not armed.\<close>

definition timer_alloc :: emu_timer where
  "timer_alloc = \<lparr>enabled = False, param = 0, expire = 0, period = 0\<rparr>"

text \<open>Modelled from the spec: \<^verbatim>\<open>emu_timer::adjust\<close>, not part of the source at hand.  It
  arms the timer to expire first after \<open>start_delay\<close> and then once every period, and
  keeps the parameter for the callback (which the driver's callback does not read).\<close>

definition adjust :: "attotime \<Rightarrow> attotime \<Rightarrow> int \<Rightarrow> attotime \<Rightarrow> emu_timer \<Rightarrow> emu_timer" where
  "adjust now start_delay p periodicity t =
     t\<lparr>enabled := True, param := p, expire := now + start_delay, period := periodicity\<rparr>"

text \<open>
  The driver state: the members \<^verbatim>\<open>m_maincpu\<close> and \<^verbatim>\<open>m_hack_timer\<close> (a null pointer until
  \<^verbatim>\<open>machine_start\<close> runs), and from the running machine the memory regions by tag and the
  current time.
\<close>

record pss790_state =
  maincpu :: cpu_device
  hack_timer :: "emu_timer option"
  regions :: "string \<rightharpoonup> u8 list"
  machine_time :: attotime

definition machine_start :: "pss790_state \<Rightarrow> pss790_state" where
  "machine_start st =
     st\<lparr>hack_timer :=
          Some (adjust (machine_time st) (from_msec 1) 0 (from_msec 1) timer_alloc)\<rparr>"

definition interrupt_hack :: "pss790_state \<Rightarrow> pss790_state" where
  "interrupt_hack st =
     st\<lparr>maincpu :=
          set_state_int (maincpu st) MN1880_IF
            (state_int (maincpu st) MN1880_IF OR push_bit 3 1)\<rparr>"

text \<open>
  \<^verbatim>\<open>machine_start\<close> and the callback \<^verbatim>\<open>interrupt_hack\<close> above are the driver's own code;
  \<open>1 << 3\<close> is \<open>push_bit 3 1\<close>.
\<close>

text \<open>Modelled from the spec: one expiry of the timer as the host scheduler delivers it;
  the scheduler is not part of the source at hand.  The clock moves to the expiry time,
  the callback runs to completion, and the timer is armed again one period later.\<close>

definition timer_expire :: "pss790_state \<Rightarrow> (attotime \<times> pss790_state) option" where
  "timer_expire st =
     (case hack_timer st of
        None \<Rightarrow> None
      | Some t \<Rightarrow>
          if enabled t
          then Some (expire t,
                 (interrupt_hack (st\<lparr>machine_time := expire t\<rparr>))
                   \<lparr>hack_timer := Some (t\<lparr>expire := expire t + period t\<rparr>)\<rparr>)
          else None)"

text \<open>Modelled from the spec: the scheduler delivering \<open>n\<close> expiries in a row, with no
  tick held back or skipped; the result lists the times at which the callback ran.\<close>

fun run_timer :: "nat \<Rightarrow> pss790_state \<Rightarrow> (attotime list \<times> pss790_state) option" where
  "run_timer 0 st = Some ([], st)"
| "run_timer (Suc n) st =
     (case timer_expire st of
        None \<Rightarrow> None
      | Some (t, st') \<Rightarrow>
          (case run_timer n st' of
             None \<Rightarrow> None
           | Some (ts, st'') \<Rightarrow> Some (t # ts, st'')))"

text \<open>Modelled from the spec: \<^verbatim>\<open>memregion\<close> of the host framework, not part of the
  source at hand, looks a ROM region up by its tag.\<close>

definition memregion :: "pss790_state \<Rightarrow> string \<Rightarrow> u8 list option" where
  "memregion st tag = regions st tag"

text \<open>
  \<^verbatim>\<open>driver_start\<close> of \<^verbatim>\<open>ympss790.cpp\<close>: it looks the region up, takes its base pointer and
  allocates the buffer; the loop itself is inside a comment.  A region that does not exist
  is a null pointer, whose dereference gives \<open>None\<close>.
\<close>

definition driver_start :: "pss790_state \<Rightarrow> pss790_state option" where
  "driver_start st =
     (case memregion st ''program'' of
        None \<Rightarrow> None
      | Some region \<Rightarrow>
          (let program = region; buf = replicate 0x20000 (0 :: u8) in Some st))"

section \<open>The wiring table\<close>

lemma bit_push_BIT: "bit (push_bit k (BIT x j)) n \<longleftrightarrow> n = k \<and> k < 32 \<and> bit x j"
  by (auto simp add: BIT_def bit_simps bit_1_iff dest: bit_imp_le_length)

lemma bit_toff:
  "bit (transmuted_offset x) n \<longleftrightarrow>
    (n = 16 \<and> bit x 10) \<or> (n = 15 \<and> bit x 15) \<or> (n = 14 \<and> bit x 11) \<or>
    (n = 13 \<and> bit x 9) \<or> (n = 12 \<and> bit x 8) \<or> (n = 11 \<and> bit x 13) \<or>
    (n = 10 \<and> bit x 14) \<or> (n = 9 \<and> bit x 16) \<or> (n = 8 \<and> bit x 12)"
  by (simp only: transmuted_offset_def pss790_scrambling_def bitswap.simps push_bit_or
        push_bit_push_bit bit_or_iff bit_push_BIT)
     simp

lemma toff_take17: "take_bit 17 (transmuted_offset x) = transmuted_offset x"
  by (rule bit_eqI) (auto simp add: bit_toff bit_take_bit_iff)

lemma toff_low8: "take_bit 8 (transmuted_offset x) = 0"
  by (rule bit_eqI) (auto simp add: bit_toff bit_take_bit_iff)

lemma toff_cong:
  assumes "take_bit 9 (drop_bit 8 x) = take_bit 9 (drop_bit 8 y)"
  shows "transmuted_offset x = transmuted_offset y"
proof -
  have b: "bit x (k + 8) = bit y (k + 8)" if "k < 9" for k
    using that arg_cong [OF assms, of "\<lambda>w. bit w k"]
    by (simp add: bit_take_bit_iff bit_drop_bit_eq add.commute)
  show ?thesis
    apply (rule bit_eqI)
    using b [of 0] b [of 1] b [of 2] b [of 3] b [of 4] b [of 5] b [of 6] b [of 7] b [of 8]
    apply (simp add: bit_toff)
    done
qed

lemma toff_inj:
  assumes "transmuted_offset x = transmuted_offset y"
  shows "take_bit 9 (drop_bit 8 x) = take_bit 9 (drop_bit 8 y)"
proof -
  have b: "bit (transmuted_offset x) n = bit (transmuted_offset y) n" for n
    using assms by simp
  have c: "bit x k = bit y k" if "k \<in> {8, 9, 10, 11, 12, 13, 14, 15, 16}" for k
    using that b [of 16] b [of 15] b [of 14] b [of 13] b [of 12] b [of 11] b [of 10]
      b [of 9] b [of 8]
    by (auto simp add: bit_toff)
  show ?thesis
  proof (rule bit_eqI)
    fix n
    show "bit (take_bit 9 (drop_bit 8 x)) n = bit (take_bit 9 (drop_bit 8 y)) n"
    proof (cases "n < 9")
      case True
      then have "8 + n \<in> {8, 9, 10, 11, 12, 13, 14, 15, 16}"
        by auto
      then show ?thesis
        using c [of "8 + n"] by (simp add: bit_take_bit_iff bit_drop_bit_eq del: insert_iff)
    next
      case False
      then show ?thesis by (simp add: bit_take_bit_iff)
    qed
  qed
qed

lemma toff_bound: "unat (transmuted_offset x) + block_size \<le> chunk_size"
proof -
  have "unat (take_bit 17 (transmuted_offset x)) < 2 ^ 17"
    by (simp only: unsigned_take_bit_eq take_bit_nat_less_exp)
  then have a: "unat (transmuted_offset x) < 131072"
    by (simp add: toff_take17)
  have "take_bit 8 (unat (transmuted_offset x)) = unat (take_bit 8 (transmuted_offset x))"
    by (simp only: unsigned_take_bit_eq)
  also have "\<dots> = 0"
    by (simp only: toff_low8 unsigned_0)
  finally have b: "unat (transmuted_offset x) mod 256 = 0"
    by (simp add: take_bit_eq_mod)
  from a b show ?thesis
    unfolding block_size_def chunk_size_def by presburger
qed

lemma toff_aligned: "unat (transmuted_offset x) mod block_size = 0"
proof -
  have "take_bit 8 (unat (transmuted_offset x)) = unat (take_bit 8 (transmuted_offset x))"
    by (simp only: unsigned_take_bit_eq)
  also have "\<dots> = 0"
    by (simp only: toff_low8 unsigned_0)
  finally show ?thesis
    by (simp add: take_bit_eq_mod block_size_def)
qed

lemma bs9:
  "bitswap x [a8, a7, a6, a5, a4, a3, a2, a1, a0] =
    push_bit 8 (BIT x a8) OR push_bit 7 (BIT x a7) OR push_bit 6 (BIT x a6) OR
    push_bit 5 (BIT x a5) OR push_bit 4 (BIT x a4) OR push_bit 3 (BIT x a3) OR
    push_bit 2 (BIT x a2) OR push_bit 1 (BIT x a1) OR push_bit 0 (BIT x a0)"
  by (simp add: push_bit_eq_mult)

lemma bit_bs:
  "bit (bitswap x pss790_scrambling) m \<longleftrightarrow>
    (m = 8 \<and> bit x 10) \<or> (m = 7 \<and> bit x 15) \<or> (m = 6 \<and> bit x 11) \<or>
    (m = 5 \<and> bit x 9) \<or> (m = 4 \<and> bit x 8) \<or> (m = 3 \<and> bit x 13) \<or>
    (m = 2 \<and> bit x 14) \<or> (m = 1 \<and> bit x 16) \<or> (m = 0 \<and> bit x 12)"
  by (simp only: pss790_scrambling_def bs9 bit_or_iff bit_push_BIT) simp

lemma bs_take9: "take_bit 9 (bitswap x pss790_scrambling) = bitswap x pss790_scrambling"
  by (rule bit_eqI) (auto simp add: bit_bs bit_take_bit_iff)

lemma lt512: "(i :: u32) < 512 \<longleftrightarrow> take_bit 9 i = i"
  using mask_eq_iff_w2p [of 9 i] by (simp add: take_bit_eq_mask word_size)

lemma bs_inj:
  assumes i: "i < 512" and j: "j < 512"
    and e: "bitswap (push_bit 8 i) pss790_scrambling = bitswap (push_bit 8 j) pss790_scrambling"
  shows "i = j"
proof -
  have "transmuted_offset (push_bit 8 i) = transmuted_offset (push_bit 8 j)"
    by (simp only: transmuted_offset_def e)
  then have "take_bit 9 (drop_bit 8 (push_bit 8 i)) = take_bit 9 (drop_bit 8 (push_bit 8 j))"
    by (rule toff_inj)
  moreover have "take_bit 9 (drop_bit 8 (push_bit 8 k)) = take_bit 9 k" for k :: u32
    by (rule bit_eqI) (auto simp add: bit_simps)
  ultimately have "take_bit 9 i = take_bit 9 j"
    by simp
  with i j show ?thesis
    by (simp only: lt512)
qed

text \<open>
  Claim C2.  The wiring table, applied to the 512 block indices of a chunk (a block index
  \<open>i\<close> is the block offset \<open>i << 8\<close>), is a bijection on the 9-bit indices: no two block
  indices get the same permuted index, and every 9-bit index is the image of one.
\<close>

theorem bitswap_scrambling_bijection:
  "bij_betw (\<lambda>i. bitswap (push_bit 8 i) pss790_scrambling) {i. i < 512} {i. i < 512}"
proof -
  let ?f = "\<lambda>i. bitswap (push_bit 8 i) pss790_scrambling"
  let ?A = "{i :: u32. i < 512}"
  have inj: "inj_on ?f ?A"
    by (rule inj_onI) (simp add: bs_inj)
  have sub: "?f ` ?A \<subseteq> ?A"
    by (auto simp add: lt512 bs_take9)
  have "finite ?A"
    by simp
  then have "?f ` ?A = ?A"
    using sub inj by (rule endo_inj_surj)
  with inj show ?thesis
    by (simp only: bij_betw_def)
qed

theorem bitswap_scrambling_bijection_witness:
  "bitswap (push_bit 8 1) pss790_scrambling \<noteq> bitswap (push_bit 8 2) pss790_scrambling"
proof
  assume e: "bitswap (push_bit 8 1) pss790_scrambling = bitswap (push_bit 8 2) pss790_scrambling"
  have "(1 :: u32) = 2"
    by (rule inj_onD [OF bij_betw_imp_inj_on [OF bitswap_scrambling_bijection] e]) simp_all
  then show False
    by simp
qed

text \<open>
  Claim C5, as the source has it.  The permuted offset of a block is made from the nine
  address bits 8 to 16 of its offset, bit 15 among them and kept in place: bits 16, 15,
  14, 13, 12, 11, 10, 9, 8 of the permuted offset are bits 10, 15, 11, 9, 8, 13, 14, 16,
  12 of the block offset, and no other bit is set (the 9-bit index shifted left by 8).
\<close>

theorem transmuted_offset_bits:
  "bit (transmuted_offset block_offset) n \<longleftrightarrow>
    (n = 16 \<and> bit block_offset 10) \<or> (n = 15 \<and> bit block_offset 15) \<or>
    (n = 14 \<and> bit block_offset 11) \<or> (n = 13 \<and> bit block_offset 9) \<or>
    (n = 12 \<and> bit block_offset 8) \<or> (n = 11 \<and> bit block_offset 13) \<or>
    (n = 10 \<and> bit block_offset 14) \<or> (n = 9 \<and> bit block_offset 16) \<or>
    (n = 8 \<and> bit block_offset 12)"
  by (rule bit_toff)

text \<open>
  Claim C5 as the spec words it pairs bit 16 with A12 and bit 15 with A16.  In the source
  the block at offset \<open>0x10000\<close> (bit 16 alone) reads from \<open>0x200\<close> (bit 9), the block at
  \<open>0x1000\<close> (bit 12 alone) reads from \<open>0x100\<close> (bit 8), and the block at \<open>0x8000\<close> (bit 15
  alone) reads from \<open>0x8000\<close>: bit 16 meets neither bit 12 nor bit 15, and bit 15 stays.
\<close>

theorem transmuted_offset_wiring_counterexample:
  "transmuted_offset 0x10000 = 0x200 \<and> transmuted_offset 0x1000 = 0x100 \<and>
   transmuted_offset 0x8000 = 0x8000"
  by (simp add: transmuted_offset_def pss790_scrambling_def BIT_def)

text \<open>
  Claim C10.  Whatever the block offset, the permuted source offset plus the length of a
  block stays within the size of the temporary chunk buffer, so no block copy reads past
  the end of the buffer.
\<close>

theorem transmuted_offset_in_chunk:
  "unat (transmuted_offset block_offset) + block_size \<le> length (replicate chunk_size (0 :: u8))"
  using toff_bound [of block_offset] by simp

section \<open>Copies and offsets\<close>

lemma std_copy_n_nth:
  assumes "i + n \<le> length src" and "d + n \<le> length dst"
  shows "\<exists>r. std_copy_n src i n dst d = Some r \<and> length r = length dst \<and>
     (\<forall>a<length dst. r ! a = (if d \<le> a \<and> a < d + n then src ! (i + (a - d)) else dst ! a))"
proof -
  let ?r = "take d dst @ take n (drop i src) @ drop (d + n) dst"
  have r: "std_copy_n src i n dst d = Some ?r"
    using assms by (simp add: std_copy_n_def)
  have len: "length ?r = length dst"
    using assms by simp
  have nth: "?r ! a = (if d \<le> a \<and> a < d + n then src ! (i + (a - d)) else dst ! a)"
    if "a < length dst" for a
  proof -
    consider "a < d" | "d \<le> a" "a < d + n" | "d + n \<le> a"
      by linarith
    then show ?thesis
    proof cases
      case 1
      then show ?thesis using assms that by (simp add: nth_append)
    next
      case 2
      have l1: "length (take d dst) = d"
        using assms by simp
      have l2: "length (take n (drop i src)) = n"
        using assms by simp
      have "?r ! a = (take n (drop i src) @ drop (d + n) dst) ! (a - d)"
        using 2 by (simp only: nth_append l1) simp
      also have "\<dots> = take n (drop i src) ! (a - d)"
        using 2 by (simp only: nth_append l2) simp
      also have "\<dots> = src ! (i + (a - d))"
        using 2 assms by simp
      finally show ?thesis using 2 by simp
    next
      case 3
      have l1: "length (take d dst) = d"
        using assms by simp
      have l2: "length (take n (drop i src)) = n"
        using assms by simp
      have "?r ! a = (take n (drop i src) @ drop (d + n) dst) ! (a - d)"
        using 3 by (simp only: nth_append l1) simp
      also have "\<dots> = drop (d + n) dst ! (a - d - n)"
        using 3 by (simp only: nth_append l2) simp
      also have "\<dots> = dst ! a"
        using 3 assms that by simp
      finally show ?thesis using 3 by simp
    qed
  qed
  from r len nth show ?thesis by blast
qed

lemma of_nat_bits_8_16:
  "take_bit 9 (drop_bit 8 (of_nat a :: u32)) = of_nat (take_bit 9 (drop_bit 8 a))"
  by (rule bit_eqI) (auto simp add: bit_simps)

lemma toff_of_nat_cong:
  assumes "a div 256 = b div 256"
  shows "transmuted_offset (of_nat a) = transmuted_offset (of_nat b)"
proof (rule toff_cong)
  have "drop_bit 8 a = drop_bit 8 b"
    using assms by (simp add: drop_bit_eq_div)
  then show "take_bit 9 (drop_bit 8 (of_nat a :: u32)) = take_bit 9 (drop_bit 8 (of_nat b))"
    by (simp only: of_nat_bits_8_16)
qed

lemma unat_add_block:
  fixes off :: u32
  assumes "unat off + block_size < 2 ^ 32"
  shows "unat (off + of_nat block_size) = unat off + block_size"
proof -
  have "unat (of_nat block_size :: u32) = block_size"
    by (simp add: block_size_def)
  then show ?thesis
    using assms by (simp add: unat_word_ariths)
qed

lemma block_index_arith:
  assumes "(ofs :: nat) mod m = 0" and "ofs \<le> a" and "a < ofs + m"
  shows "a div m = ofs div m" and "a mod m = a - ofs"
proof -
  have "ofs div m * m + ofs mod m = ofs"
    by simp
  with assms(1) have "ofs = ofs div m * m"
    by simp
  then obtain q where q: "ofs = q * m" ..
  define r where "r = a - ofs"
  have a: "a = r + q * m" and r: "r < m"
    using assms(2,3) q by (simp_all add: r_def)
  show "a div m = ofs div m"
    using r by (simp add: a q)
  show "a mod m = a - ofs"
    using r by (simp add: a q)
qed

lemma copy_blocks_spec:
  assumes "length chunk = chunk_size"
    and "unat off + n * block_size \<le> length base"
    and "length base < 2 ^ 32"
    and "unat off mod block_size = 0"
  shows "\<exists>base'. copy_blocks n chunk off base = Some (off + of_nat (n * block_size), base') \<and>
     length base' = length base \<and>
     (\<forall>a<length base. base' ! a =
        (if unat off \<le> a \<and> a < unat off + n * block_size
         then chunk ! (unat (transmuted_offset (of_nat a)) + a mod block_size)
         else base ! a))"
  using assms
proof (induction n arbitrary: off base)
  case 0
  show ?case
  proof (intro exI conjI allI impI)
    show "copy_blocks 0 chunk off base = Some (off + of_nat (0 * block_size), base)"
      by simp
    show "length base = length base" ..
    fix a
    show "base ! a =
        (if unat off \<le> a \<and> a < unat off + 0 * block_size
         then chunk ! (unat (transmuted_offset (of_nat a)) + a mod block_size)
         else base ! a)"
      by auto
  qed
next
  case (Suc n)
  let ?o = "unat off"
  let ?t = "unat (transmuted_offset off)"
  have fit: "?o + block_size \<le> length base"
    using Suc.prems(2) by simp
  have tfit: "?t + block_size \<le> length chunk"
    using toff_bound [of off] Suc.prems(1) by simp
  from std_copy_n_nth [OF tfit fit] obtain base1 where
    c1: "std_copy_n chunk ?t block_size base ?o = Some base1" and
    l1: "length base1 = length base" and
    n1: "\<And>a. a < length base \<Longrightarrow> base1 ! a =
          (if ?o \<le> a \<and> a < ?o + block_size then chunk ! (?t + (a - ?o)) else base ! a)"
    by blast
  have adv: "unat (off + of_nat block_size) = ?o + block_size"
    using fit Suc.prems(3) by (intro unat_add_block) simp
  have p2: "unat (off + of_nat block_size) + n * block_size \<le> length base1"
    using Suc.prems(2) by (simp add: adv l1)
  have p3: "length base1 < 2 ^ 32"
    using Suc.prems(3) by (simp add: l1)
  have p4: "unat (off + of_nat block_size) mod block_size = 0"
    using Suc.prems(4) by (simp add: adv)
  from Suc.IH [OF Suc.prems(1) p2 p3 p4] obtain base' where
    c2: "copy_blocks n chunk (off + of_nat block_size) base1 =
           Some (off + of_nat block_size + of_nat (n * block_size), base')" and
    l2: "length base' = length base1" and
    n2: "\<And>a. a < length base1 \<Longrightarrow> base' ! a =
          (if unat (off + of_nat block_size) \<le> a \<and>
              a < unat (off + of_nat block_size) + n * block_size
           then chunk ! (unat (transmuted_offset (of_nat a)) + a mod block_size)
           else base1 ! a)"
    by blast
  have e: "off + of_nat block_size + of_nat (n * block_size) = off + of_nat (Suc n * block_size)"
    by simp
  have "copy_blocks (Suc n) chunk off base = copy_blocks n chunk (off + of_nat block_size) base1"
    by (simp add: c1)
  also note c2
  finally have r: "copy_blocks (Suc n) chunk off base = Some (off + of_nat (Suc n * block_size), base')"
    by (simp only: e)
  have nth: "base' ! a =
        (if ?o \<le> a \<and> a < ?o + Suc n * block_size
         then chunk ! (unat (transmuted_offset (of_nat a)) + a mod block_size)
         else base ! a)" if a: "a < length base" for a
  proof -
    consider "a < ?o" | "?o \<le> a" "a < ?o + block_size"
      | "?o + block_size \<le> a" "a < ?o + block_size + n * block_size"
      | "?o + block_size + n * block_size \<le> a"
      by linarith
    then show ?thesis
    proof cases
      case 1
      then show ?thesis using a n1 [of a] n2 [of a] by (simp add: l1 adv)
    next
      case 2
      have o256: "?o mod 256 = 0" "?o \<le> a" "a < ?o + 256"
        using Suc.prems(4) 2 by (simp_all add: block_size_def)
      have "a div 256 = ?o div 256" and m: "a mod 256 = a - ?o"
        using block_index_arith [OF o256] by simp_all
      then have "transmuted_offset (of_nat a) = transmuted_offset (of_nat ?o)"
        by (intro toff_of_nat_cong)
      then have t: "unat (transmuted_offset (of_nat a)) = ?t"
        by simp
      have "base' ! a = base1 ! a"
        using a 2 n2 [of a] by (simp add: l1 adv)
      also have "\<dots> = chunk ! (?t + (a - ?o))"
        using a 2 n1 [of a] by simp
      finally show ?thesis
        using 2 by (simp add: t m block_size_def)
    next
      case 3
      then show ?thesis using a n2 [of a] by (simp add: l1 adv)
    next
      case 4
      then show ?thesis using a n1 [of a] n2 [of a] by (simp add: l1 adv)
    qed
  qed
  show ?case
  proof (intro exI conjI allI impI)
    show "copy_blocks (Suc n) chunk off base = Some (off + of_nat (Suc n * block_size), base')"
      by (rule r)
    show "length base' = length base"
      by (simp only: l1 l2)
    fix a
    assume "a < length base"
    then show "base' ! a =
        (if ?o \<le> a \<and> a < ?o + Suc n * block_size
         then chunk ! (unat (transmuted_offset (of_nat a)) + a mod block_size)
         else base ! a)"
      by (rule nth)
  qed
qed

section \<open>The loops\<close>

lemma chunk_size_pos: "0 < chunk_size"
  by (simp add: chunk_size_def)

lemma block_size_pos: "0 < block_size"
  by (simp add: block_size_def)

lemma blocks_fill_chunk: "block_count * block_size = chunk_size"
  by (simp add: block_count_def block_size_def chunk_size_def)

lemma chunk_multiple_aligned: "(c * chunk_size) mod block_size = 0"
  by (simp add: chunk_size_def block_size_def)

lemma unat_of_nat_u32: "x < 2 ^ 32 \<Longrightarrow> unat (of_nat x :: u32) = x"
  by (simp add: unat_of_nat)

lemma src_index_lower: "(a div chunk_size) * chunk_size \<le> src_index a"
  by (simp add: src_index_def)

lemma src_index_upper: "src_index a < Suc (a div chunk_size) * chunk_size"
proof -
  have "a mod block_size < block_size"
    using block_size_pos by simp
  then have "unat (transmuted_offset (of_nat a)) + a mod block_size < chunk_size"
    using toff_bound [of "of_nat a"] by linarith
  then show ?thesis
    by (simp add: src_index_def)
qed

lemma div_chunk_eq:
  assumes "c * chunk_size \<le> a" and "a < Suc c * chunk_size"
  shows "a div chunk_size = c"
  using assms by (intro div_nat_eqI) (simp_all add: mult.commute)

lemma std_copy_chunk:
  assumes "i + chunk_size \<le> length base" and "length chunk = chunk_size"
  shows "std_copy base i (i + chunk_size) chunk = Some (take chunk_size (drop i base))"
  using assms by (simp add: std_copy_def)

lemma transmute_loop_spec:
  assumes "length base = k * chunk_size" and "k * chunk_size < 2 ^ 32" and "c \<le> k"
    and "length chunk = chunk_size"
  shows "\<exists>out. transmute_loop (of_nat (k * chunk_size)) (of_nat (c * chunk_size)) chunk base
            = Some out \<and>
     length out = length base \<and>
     (\<forall>a<length base. out ! a = (if c * chunk_size \<le> a then base ! src_index a else base ! a))"
  using assms
proof (induction "k - c" arbitrary: c base chunk)
  case 0
  then have "c = k"
    by simp
  have r: "transmute_loop (of_nat (k * chunk_size)) (of_nat (c * chunk_size)) chunk base = Some base"
    by (subst transmute_loop.simps) (simp add: \<open>c = k\<close>)
  show ?case
  proof (intro exI conjI allI impI)
    show "transmute_loop (of_nat (k * chunk_size)) (of_nat (c * chunk_size)) chunk base = Some base"
      by (rule r)
    show "length base = length base" ..
    fix a
    assume "a < length base"
    then show "base ! a = (if c * chunk_size \<le> a then base ! src_index a else base ! a)"
      using 0(2) by (simp add: \<open>c = k\<close>)
  qed
next
  case (Suc d)
  then have ck: "c < k"
    by simp
  then have cle: "Suc c * chunk_size \<le> k * chunk_size"
    by (simp add: Suc_leI del: mult_Suc)
  have clt: "c * chunk_size < k * chunk_size"
    using ck chunk_size_pos by simp
  let ?off = "of_nat (c * chunk_size) :: u32"
  have uo: "unat ?off = c * chunk_size"
    using clt Suc.prems(2) by (intro unat_of_nat_u32) linarith
  have ur: "unat (of_nat (k * chunk_size) :: u32) = k * chunk_size"
    using Suc.prems(2) by (intro unat_of_nat_u32)
  have ue: "unat (?off + of_nat chunk_size) = c * chunk_size + chunk_size"
  proof -
    have "?off + of_nat chunk_size = of_nat (Suc c * chunk_size)"
      by (simp add: add.commute)
    moreover have "unat (of_nat (Suc c * chunk_size) :: u32) = Suc c * chunk_size"
      using cle Suc.prems(2) by (intro unat_of_nat_u32) linarith
    ultimately show ?thesis
      by (simp add: add.commute)
  qed
  have lt: "?off < of_nat (k * chunk_size)"
    using clt by (simp only: word_less_nat_alt uo ur)
  have fit: "c * chunk_size + chunk_size \<le> length base"
    using cle Suc.prems(1) by (simp add: add.commute)
  let ?chunk' = "take chunk_size (drop (c * chunk_size) base)"
  have c1: "std_copy base (unat ?off) (unat (?off + of_nat chunk_size)) chunk = Some ?chunk'"
    using std_copy_chunk [OF fit Suc.prems(4)] by (simp only: uo ue)
  have lc: "length ?chunk' = chunk_size"
    using fit by simp
  have q2: "unat ?off + block_count * block_size \<le> length base"
    using fit by (simp only: uo blocks_fill_chunk)
  have q3: "length base < 2 ^ 32"
    using Suc.prems(1,2) by simp
  have q4: "unat ?off mod block_size = 0"
    by (simp only: uo chunk_multiple_aligned)
  from copy_blocks_spec [OF lc q2 q3 q4] obtain base1 where
    c2: "copy_blocks block_count ?chunk' ?off base
          = Some (?off + of_nat (block_count * block_size), base1)" and
    l1: "length base1 = length base" and
    n1: "\<And>a. a < length base \<Longrightarrow> base1 ! a =
          (if unat ?off \<le> a \<and> a < unat ?off + block_count * block_size
           then ?chunk' ! (unat (transmuted_offset (of_nat a)) + a mod block_size)
           else base ! a)"
    by blast
  have next_off: "?off + of_nat (block_count * block_size) = of_nat (Suc c * chunk_size)"
    by (simp only: blocks_fill_chunk) (simp add: add.commute)
  have sc: "Suc c * chunk_size = c * chunk_size + chunk_size"
    by simp
  have n1': "base1 ! a =
          (if c * chunk_size \<le> a \<and> a < c * chunk_size + chunk_size
           then base ! src_index a else base ! a)" if a: "a < length base" for a
  proof (cases "c * chunk_size \<le> a \<and> a < c * chunk_size + chunk_size")
    case True
    then have dv: "a div chunk_size = c"
      by (intro div_chunk_eq) (simp_all only: sc)
    have "a mod block_size < block_size"
      using block_size_pos by simp
    then have in_chunk: "unat (transmuted_offset (of_nat a)) + a mod block_size < chunk_size"
      using toff_bound [of "of_nat a"] by linarith
    have "base1 ! a = ?chunk' ! (unat (transmuted_offset (of_nat a)) + a mod block_size)"
      using n1 [OF a, unfolded uo blocks_fill_chunk] True by (simp only: if_True if_False simp_thms)
    also have "\<dots> = base ! (c * chunk_size + (unat (transmuted_offset (of_nat a)) + a mod block_size))"
      using in_chunk fit by simp
    also have "\<dots> = base ! src_index a"
      by (simp add: src_index_def dv add.assoc)
    finally show ?thesis
      using True by (simp only: if_True if_False simp_thms)
  next
    case False
    then show ?thesis
      using n1 [OF a, unfolded uo blocks_fill_chunk] by (simp only: if_True if_False simp_thms)
  qed
  have d: "d = k - Suc c"
    using Suc.hyps(2) by simp
  have p1: "length base1 = k * chunk_size"
    using Suc.prems(1) by (simp only: l1)
  have p3: "Suc c \<le> k"
    using ck by simp
  from Suc.hyps(1) [OF d p1 Suc.prems(2) p3 lc] obtain out where
    c3: "transmute_loop (of_nat (k * chunk_size)) (of_nat (Suc c * chunk_size)) ?chunk' base1
          = Some out" and
    l2: "length out = length base1" and
    n2: "\<And>a. a < length base1 \<Longrightarrow> out ! a =
          (if Suc c * chunk_size \<le> a then base1 ! src_index a else base1 ! a)"
    by blast
  have r: "transmute_loop (of_nat (k * chunk_size)) ?off chunk base = Some out"
    by (subst transmute_loop.simps) (simp only: lt if_True c1 c2 next_off c3 option.case prod.case)
  have nth: "out ! a = (if c * chunk_size \<le> a then base ! src_index a else base ! a)"
    if a: "a < length base" for a
  proof -
    have a1: "a < length base1"
      using a by (simp only: l1)
    note n2' = n2 [OF a1, unfolded sc]
    consider "a < c * chunk_size" | "c * chunk_size \<le> a" "a < c * chunk_size + chunk_size"
      | "c * chunk_size + chunk_size \<le> a"
      by linarith
    then show ?thesis
    proof cases
      case 1
      then have "\<not> c * chunk_size + chunk_size \<le> a" and "\<not> c * chunk_size \<le> a"
        by simp_all
      then show ?thesis
        using n2' n1' [OF a] by (simp only: if_True if_False simp_thms)
    next
      case 2
      then have "\<not> c * chunk_size + chunk_size \<le> a"
        by simp
      then have "out ! a = base1 ! a"
        using n2' by (simp only: if_True if_False simp_thms)
      then show ?thesis
        using 2 n1' [OF a] by (simp only: if_True if_False simp_thms)
    next
      case 3
      then have cle': "c * chunk_size \<le> a"
        by simp
      from 3 have "Suc c * chunk_size \<le> a"
        by (simp only: sc)
      then have ge: "Suc c \<le> a div chunk_size"
        using chunk_size_pos by (simp only: less_eq_div_iff_mult_less_eq)
      have "a div chunk_size < k"
        using a Suc.prems(1) chunk_size_pos by (simp only: div_less_iff_less_mult)
      then have "Suc (a div chunk_size) * chunk_size \<le> k * chunk_size"
        by (simp add: Suc_leI del: mult_Suc)
      then have s1: "src_index a < length base"
        using src_index_upper [of a] Suc.prems(1) by linarith
      have "Suc c * chunk_size \<le> (a div chunk_size) * chunk_size"
        using ge by (simp del: mult_Suc)
      then have s2: "c * chunk_size + chunk_size \<le> src_index a"
        using src_index_lower [of a] by (simp only: sc)
      then have s3: "\<not> (c * chunk_size \<le> src_index a \<and> src_index a < c * chunk_size + chunk_size)"
        by simp
      have "out ! a = base1 ! src_index a"
        using n2' 3 by (simp only: if_True if_False simp_thms)
      also have "\<dots> = base ! src_index a"
        using n1' [OF s1] s3 by (simp only: if_True if_False simp_thms)
      finally show ?thesis
        using cle' by (simp only: if_True if_False simp_thms)
    qed
  qed
  show ?case
  proof (intro exI conjI allI impI)
    show "transmute_loop (of_nat (k * chunk_size)) ?off chunk base = Some out"
      by (rule r)
    show "length out = length base"
      by (simp only: l1 l2)
    fix a
    assume "a < length base"
    then show "out ! a = (if c * chunk_size \<le> a then base ! src_index a else base ! a)"
      by (rule nth)
  qed
qed

lemma transmute_program_rom_nth:
  assumes "length rom = k * chunk_size" and "length rom < 2 ^ 32"
  shows "\<exists>out. transmute_program_rom rom = Some out \<and> length out = length rom \<and>
     (\<forall>a<length rom. out ! a = rom ! src_index a)"
proof -
  have p2: "k * chunk_size < 2 ^ 32"
    using assms by simp
  have p4: "length (replicate chunk_size (0 :: u8)) = chunk_size"
    by simp
  from transmute_loop_spec [OF assms(1) p2 le0 p4] obtain out where
    r: "transmute_loop (of_nat (k * chunk_size)) (of_nat (0 * chunk_size))
          (replicate chunk_size 0) rom = Some out" and
    l: "length out = length rom" and
    n: "\<And>a. a < length rom \<Longrightarrow> out ! a =
          (if 0 * chunk_size \<le> a then rom ! src_index a else rom ! a)"
    by blast
  have "transmute_program_rom rom = Some out"
    using r by (simp add: transmute_program_rom_def assms(1))
  moreover have "out ! a = rom ! src_index a" if "a < length rom" for a
    using n [OF that] by simp
  ultimately show ?thesis
    using l by blast
qed

text \<open>
  A region that is not made of whole chunks: the loop runs through the whole chunks and
  then copies a last chunk that reaches past the end of the region.
\<close>

lemma transmute_loop_partial:
  assumes "length base = k * chunk_size + r" and "0 < r" and "r < chunk_size"
    and "length base < 2 ^ 32" and "c \<le> k" and "length chunk = chunk_size"
  shows "transmute_loop (of_nat (length base)) (of_nat (c * chunk_size)) chunk base = None"
  using assms
proof (induction "k - c" arbitrary: c base chunk)
  case 0
  then have ck: "c = k"
    by simp
  let ?off = "of_nat (k * chunk_size) :: u32"
  have uo: "unat ?off = k * chunk_size"
    using 0(2,5) by (intro unat_of_nat_u32) linarith
  have ur: "unat (of_nat (length base) :: u32) = length base"
    using 0(5) by (rule unat_of_nat_u32)
  have lt: "?off < of_nat (length base)"
    using 0(2,3) unfolding word_less_nat_alt uo ur by linarith
  have cs: "unat (of_nat chunk_size :: u32) = chunk_size"
    by (simp add: chunk_size_def)
  have e: "unat (?off + of_nat chunk_size) = (k * chunk_size + chunk_size) mod 2 ^ 32"
    by (simp only: unat_word_ariths uo cs) simp
  have bad: "\<not> (k * chunk_size \<le> unat (?off + of_nat chunk_size) \<and>
      unat (?off + of_nat chunk_size) \<le> length base)"
  proof (cases "k * chunk_size + chunk_size < 2 ^ 32")
    case True
    then have "unat (?off + of_nat chunk_size) = k * chunk_size + chunk_size"
      by (simp only: e mod_less)
    then show ?thesis
      using 0(2,4) by simp
  next
    case False
    have "chunk_size < 2 ^ 32"
      by (simp add: chunk_size_def)
    moreover have "k * chunk_size < 2 ^ 32"
      using 0(2,5) by linarith
    ultimately have "(k * chunk_size + chunk_size) mod 2 ^ 32 = k * chunk_size + chunk_size - 2 ^ 32"
      using False by (simp add: mod_if)
    then have "unat (?off + of_nat chunk_size) < k * chunk_size"
      using \<open>chunk_size < 2 ^ 32\<close> False by (simp only: e)
    then show ?thesis
      by simp
  qed
  have "std_copy base i j chunk = None" if "\<not> (i \<le> j \<and> j \<le> length base)" for i j
    using that by (auto simp add: std_copy_def)
  from this [OF bad]
  have "std_copy base (unat ?off) (unat (?off + of_nat chunk_size)) chunk = None"
    by (simp only: uo)
  then show ?case
    by (subst transmute_loop.simps) (simp only: ck lt if_True option.case)
next
  case (Suc d)
  then have ck: "c < k"
    by simp
  have sc: "Suc c * chunk_size = c * chunk_size + chunk_size"
    by simp
  have cle: "c * chunk_size + chunk_size \<le> k * chunk_size"
    using ck by (simp only: sc [symmetric]) (simp add: Suc_leI del: mult_Suc)
  let ?off = "of_nat (c * chunk_size) :: u32"
  have uo: "unat ?off = c * chunk_size"
    using cle Suc.prems(1,4) by (intro unat_of_nat_u32) linarith
  have ur: "unat (of_nat (length base) :: u32) = length base"
    using Suc.prems(4) by (rule unat_of_nat_u32)
  have ue: "unat (?off + of_nat chunk_size) = c * chunk_size + chunk_size"
  proof -
    have "?off + of_nat chunk_size = of_nat (c * chunk_size + chunk_size)"
      by simp
    moreover have "unat (of_nat (c * chunk_size + chunk_size) :: u32) = c * chunk_size + chunk_size"
      using cle Suc.prems(1,4) by (intro unat_of_nat_u32) linarith
    ultimately show ?thesis
      by (simp only:)
  qed
  have lt: "?off < of_nat (length base)"
    using cle Suc.prems(1) chunk_size_pos unfolding word_less_nat_alt uo ur by linarith
  have fit: "c * chunk_size + chunk_size \<le> length base"
    using cle Suc.prems(1) by linarith
  let ?chunk' = "take chunk_size (drop (c * chunk_size) base)"
  have c1: "std_copy base (unat ?off) (unat (?off + of_nat chunk_size)) chunk = Some ?chunk'"
    using std_copy_chunk [OF fit Suc.prems(6)] by (simp only: uo ue)
  have lc: "length ?chunk' = chunk_size"
    using fit by simp
  have q2: "unat ?off + block_count * block_size \<le> length base"
    using fit by (simp only: uo blocks_fill_chunk)
  have q4: "unat ?off mod block_size = 0"
    by (simp only: uo chunk_multiple_aligned)
  from copy_blocks_spec [OF lc q2 Suc.prems(4) q4] obtain base1 where
    c2: "copy_blocks block_count ?chunk' ?off base
          = Some (?off + of_nat (block_count * block_size), base1)" and
    l1: "length base1 = length base"
    by blast
  have next_off: "?off + of_nat (block_count * block_size) = of_nat (Suc c * chunk_size)"
    by (simp only: blocks_fill_chunk) (simp add: add.commute)
  have d: "d = k - Suc c"
    using Suc.hyps(2) by simp
  have p1: "length base1 = k * chunk_size + r" and p4: "length base1 < 2 ^ 32"
    using Suc.prems(1,4) by (simp_all only: l1)
  have p5: "Suc c \<le> k"
    using ck by simp
  have "transmute_loop (of_nat (length base1)) (of_nat (Suc c * chunk_size)) ?chunk' base1 = None"
    using d p1 Suc.prems(2,3) p4 p5 lc by (rule Suc.hyps(1))
  then have c3: "transmute_loop (of_nat (length base)) (of_nat (Suc c * chunk_size)) ?chunk' base1 = None"
    by (simp only: l1)
  show ?case
    by (subst transmute_loop.simps) (simp only: lt if_True c1 c2 next_off c3 option.case prod.case)
qed

lemma transmute_partial_chunk:
  assumes "length rom mod chunk_size \<noteq> 0" and "length rom < 2 ^ 32"
  shows "transmute_program_rom rom = None"
proof -
  have s: "length rom = (length rom div chunk_size) * chunk_size + length rom mod chunk_size"
    by simp
  have r1: "0 < length rom mod chunk_size"
    using assms(1) by simp
  have r2: "length rom mod chunk_size < chunk_size"
    using chunk_size_pos by simp
  have l: "length (replicate chunk_size (0 :: u8)) = chunk_size"
    by simp
  from transmute_loop_partial [OF s r1 r2 assms(2) le0 l] show ?thesis
    by (simp add: transmute_program_rom_def)
qed

section \<open>Iterating the permutation\<close>

lemma chunk_is_512_blocks: "chunk_size = 256 * 512"
  by (simp add: chunk_size_def)

lemma block_is_256: "block_size = 256"
  by (simp add: block_size_def)

lemma mod_chunk_split: "a mod chunk_size = 256 * (a div 256 mod 512) + a mod 256"
  by (simp only: chunk_is_512_blocks mod_mult2_eq)

lemma toff_of_nat_cong9:
  assumes "a div 256 mod 512 = b div 256 mod 512"
  shows "transmuted_offset (of_nat a) = transmuted_offset (of_nat b)"
proof (rule toff_cong)
  have "take_bit 9 (drop_bit 8 a) = take_bit 9 (drop_bit 8 b)"
    using assms by (simp add: drop_bit_eq_div take_bit_eq_mod)
  then show "take_bit 9 (drop_bit 8 (of_nat a :: u32)) = take_bit 9 (drop_bit 8 (of_nat b))"
    by (simp only: of_nat_bits_8_16)
qed

lemma in_chunk_parts:
  fixes c t j :: nat
  assumes "t mod 256 = 0" and "t + 256 \<le> chunk_size" and "j < 256"
  shows "(c * chunk_size + t + j) div chunk_size = c"
    and "(c * chunk_size + t + j) mod 256 = j"
    and "(c * chunk_size + t + j) div 256 mod 512 = t div 256 mod 512"
proof -
  have "c * chunk_size \<le> c * chunk_size + t + j"
    by simp
  moreover have "c * chunk_size + t + j < Suc c * chunk_size"
    using assms(2,3) by simp
  ultimately show "(c * chunk_size + t + j) div chunk_size = c"
    by (rule div_chunk_eq)
  have "t div 256 * 256 + t mod 256 = t"
    by simp
  with assms(1) have t: "t = t div 256 * 256"
    by simp
  define q where "q = c * 512 + t div 256"
  have s: "c * chunk_size + t + j = j + q * 256"
    unfolding q_def by (subst t) (simp add: chunk_is_512_blocks algebra_simps)
  show "(c * chunk_size + t + j) mod 256 = j"
    using assms(3) unfolding s by simp
  have "(c * chunk_size + t + j) div 256 = q"
    using assms(3) unfolding s by simp
  then show "(c * chunk_size + t + j) div 256 mod 512 = t div 256 mod 512"
    by (simp add: q_def)
qed

lemma src_index_step:
  "src_index ((a div chunk_size) * chunk_size + unat (transmuted_offset x) + a mod block_size)
     = (a div chunk_size) * chunk_size + unat (transmuted_offset (transmuted_offset x))
         + a mod block_size"
proof -
  let ?c = "a div chunk_size" and ?t = "unat (transmuted_offset x)" and ?j = "a mod 256"
  let ?s = "?c * chunk_size + ?t + ?j"
  have t0: "?t mod 256 = 0"
    using toff_aligned [of x] by (simp add: block_size_def)
  have t1: "?t + 256 \<le> chunk_size"
    using toff_bound [of x] by (simp add: block_size_def)
  have j: "?j < 256"
    by simp
  note parts = in_chunk_parts [OF t0 t1 j, of ?c]
  have "transmuted_offset (of_nat ?s) = transmuted_offset (of_nat ?t)"
    using parts(3) by (rule toff_of_nat_cong9)
  then have "transmuted_offset (of_nat ?s) = transmuted_offset (transmuted_offset x)"
    by simp
  then have "src_index ?s = ?c * chunk_size + unat (transmuted_offset (transmuted_offset x)) + ?j"
    unfolding src_index_def [of ?s] by (simp only: parts(1,2) block_is_256)
  then show ?thesis
    by (simp only: block_is_256)
qed

lemma toff_at:
  "bit (transmuted_offset x) 16 = bit x 10"
  "bit (transmuted_offset x) 15 = bit x 15"
  "bit (transmuted_offset x) 14 = bit x 11"
  "bit (transmuted_offset x) 13 = bit x 9"
  "bit (transmuted_offset x) 12 = bit x 8"
  "bit (transmuted_offset x) 11 = bit x 13"
  "bit (transmuted_offset x) 10 = bit x 14"
  "bit (transmuted_offset x) 9 = bit x 16"
  "bit (transmuted_offset x) 8 = bit x 12"
  by (simp_all add: bit_toff)

lemma toff_outside: "\<not> (8 \<le> n \<and> n < 17) \<Longrightarrow> \<not> bit (transmuted_offset x) n"
  by (auto simp add: bit_toff)

lemma bit_toff6:
  "bit (transmuted_offset (transmuted_offset (transmuted_offset (transmuted_offset
     (transmuted_offset (transmuted_offset x)))))) n \<longleftrightarrow> 8 \<le> n \<and> n < 17 \<and> bit x n"
proof (cases "8 \<le> n \<and> n < 17")
  case True
  then consider "n = 8" | "n = 9" | "n = 10" | "n = 11" | "n = 12" | "n = 13" | "n = 14"
    | "n = 15" | "n = 16"
    by linarith
  then show ?thesis
    by cases (simp_all only: toff_at, simp_all)
next
  case False
  then show ?thesis
    using toff_outside [OF False] by blast
qed

lemma toff6:
  "transmuted_offset (transmuted_offset (transmuted_offset (transmuted_offset
     (transmuted_offset (transmuted_offset x))))) = push_bit 8 (take_bit 9 (drop_bit 8 x))"
proof (rule bit_eqI)
  fix n
  assume pb: "possible_bit TYPE(u32) n"
  have r: "bit (push_bit 8 (take_bit 9 (drop_bit 8 x))) n \<longleftrightarrow> 8 \<le> n \<and> n < 17 \<and> bit x n"
  proof (cases "8 \<le> n")
    case True
    then obtain m where m: "n = 8 + m"
      using le_Suc_ex by blast
    show ?thesis
      using pb unfolding m by (simp add: bit_push_bit_iff bit_take_bit_iff bit_drop_bit_eq)
  next
    case False
    then show ?thesis
      by (simp add: bit_push_bit_iff)
  qed
  show "bit (transmuted_offset (transmuted_offset (transmuted_offset (transmuted_offset
     (transmuted_offset (transmuted_offset x)))))) n
     = bit (push_bit 8 (take_bit 9 (drop_bit 8 x))) n"
    by (simp only: bit_toff6 r)
qed

lemma unat_bits_8_16:
  "unat (push_bit 8 (take_bit 9 (drop_bit 8 (of_nat a :: u32)))) = 256 * (a div 256 mod 512)"
proof -
  let ?m = "a div 256 mod 512"
  have "take_bit 9 (drop_bit 8 (of_nat a :: u32)) = of_nat ?m"
    by (simp only: of_nat_bits_8_16) (simp add: drop_bit_eq_div take_bit_eq_mod)
  then have "push_bit 8 (take_bit 9 (drop_bit 8 (of_nat a :: u32))) = of_nat (256 * ?m)"
    by (simp add: push_bit_eq_mult)
  moreover have "256 * ?m < 2 ^ 32"
  proof -
    have "?m < 512"
      by simp
    then show ?thesis
      by simp
  qed
  ultimately show ?thesis
    by (simp only: unat_of_nat_u32)
qed

lemma src_index_period: "(src_index ^^ 6) a = a"
proof -
  let ?c = "a div chunk_size" and ?j = "a mod block_size"
  let ?T = "transmuted_offset"
  have "(src_index ^^ 6) a
      = src_index (src_index (src_index (src_index (src_index (src_index a)))))"
    by (simp add: eval_nat_numeral)
  also have "\<dots> = ?c * chunk_size + unat (?T (?T (?T (?T (?T (?T (of_nat a))))))) + ?j"
    by (simp only: src_index_def [of a] src_index_step)
  also have "\<dots> = ?c * chunk_size + 256 * (a div 256 mod 512) + a mod 256"
    by (simp only: toff6 unat_bits_8_16 block_is_256)
  also have "\<dots> = ?c * chunk_size + a mod chunk_size"
    by (simp only: mod_chunk_split add.assoc)
  also have "\<dots> = a"
    by simp
  finally show ?thesis .
qed

lemma src_index_in_range:
  assumes "a < k * chunk_size"
  shows "src_index a < k * chunk_size"
proof -
  have "a div chunk_size < k"
    using assms chunk_size_pos by (simp only: div_less_iff_less_mult)
  then have "Suc (a div chunk_size) * chunk_size \<le> k * chunk_size"
    by (simp add: Suc_leI del: mult_Suc)
  then show ?thesis
    using src_index_upper [of a] by linarith
qed

lemma src_index_inj: "inj src_index"
proof (rule injI)
  fix a b
  assume "src_index a = src_index b"
  then have "(src_index ^^ 6) a = (src_index ^^ 6) b"
    by (simp add: eval_nat_numeral)
  then show "a = b"
    by (simp only: src_index_period)
qed

lemma src_index_bij: "bij_betw src_index {..<k * chunk_size} {..<k * chunk_size}"
proof -
  have inj: "inj_on src_index {..<k * chunk_size}"
    using src_index_inj by (rule inj_on_subset) simp
  have sub: "src_index ` {..<k * chunk_size} \<subseteq> {..<k * chunk_size}"
    using src_index_in_range by auto
  have "finite {..<k * chunk_size}"
    by simp
  then have "src_index ` {..<k * chunk_size} = {..<k * chunk_size}"
    using sub inj by (rule endo_inj_surj)
  with inj show ?thesis
    by (simp only: bij_betw_def)
qed



section \<open>The transform on whole chunks\<close>




text \<open>
  Regions with a single non-zero byte show where the transform moves a byte: the byte at
  \<open>s\<close> ends at the position \<open>d\<close> with \<open>src_index d = s\<close>.
\<close>

lemma transmute_unit_image:
  assumes "k * chunk_size < 2 ^ 32" and "d < k * chunk_size" and "src_index d = s"
  shows "transmute_program_rom ((replicate (k * chunk_size) 0)[s := 1])
     = Some ((replicate (k * chunk_size) 0)[d := 1])"
proof -
  let ?n = "k * chunk_size"
  let ?rom = "(replicate ?n (0 :: u8))[s := 1]"
  have l0: "length ?rom = ?n"
    by simp
  have l0': "length ?rom < 2 ^ 32"
    using assms(1) by simp
  from transmute_program_rom_nth [OF l0 l0'] obtain out where
    r: "transmute_program_rom ?rom = Some out" and
    l: "length out = length ?rom" and
    n: "\<And>a. a < length ?rom \<Longrightarrow> out ! a = ?rom ! src_index a"
    by blast
  have "out = (replicate ?n 0)[d := 1]"
  proof (rule nth_equalityI)
    show "length out = length ((replicate ?n (0 :: u8))[d := 1])"
      by (simp add: l)
  next
    fix a
    assume "a < length out"
    then have a: "a < ?n"
      by (simp add: l)
    then have sa: "src_index a < ?n"
      by (rule src_index_in_range)
    have e: "src_index a = s \<longleftrightarrow> a = d"
      using assms(3) src_index_inj by (auto dest: injD)
    have "out ! a = ?rom ! src_index a"
      using a by (intro n) simp
    also have "\<dots> = (if src_index a = s then 1 else 0)"
      using sa by (simp add: nth_list_update)
    also have "\<dots> = (if a = d then 1 else 0)"
      by (simp only: e)
    also have "\<dots> = (replicate ?n (0 :: u8))[d := 1] ! a"
      using a by (simp add: nth_list_update)
    finally show "out ! a = (replicate ?n (0 :: u8))[d := 1] ! a" .
  qed
  with r show ?thesis
    by simp
qed

lemma src_index_1024: "src_index 1024 = 65536"
  by (simp add: src_index_def chunk_size_def block_size_def transmuted_offset_def
      pss790_scrambling_def BIT_def)


lemma one_chunk: "1 * chunk_size = 131072"
  by (simp add: chunk_size_def)

lemma transmute_unit_65536:
  "transmute_program_rom ((replicate 131072 0)[65536 := 1]) = Some ((replicate 131072 0)[1024 := 1])"
proof -
  have "1 * chunk_size < 2 ^ 32" and "1024 < 1 * chunk_size"
    by (simp_all add: chunk_size_def)
  from transmute_unit_image [OF this src_index_1024] show ?thesis
    by (simp only: one_chunk)
qed



lemma src_index_132096: "src_index 132096 = 196608"
  by (simp add: src_index_def chunk_size_def block_size_def transmuted_offset_def
      pss790_scrambling_def BIT_def)

lemma two_chunks: "2 * chunk_size = 262144"
  by (simp add: chunk_size_def)

lemma transmute_unit_196608:
  "transmute_program_rom ((replicate 262144 0)[196608 := 1])
     = Some ((replicate 262144 0)[132096 := 1])"
proof -
  have "2 * chunk_size < 2 ^ 32" and "132096 < 2 * chunk_size"
    by (simp_all add: chunk_size_def)
  from transmute_unit_image [OF this src_index_132096] show ?thesis
    by (simp only: two_chunks)
qed

lemma unit_image_moved: "(replicate 131072 (0 :: u8))[1024 := 1] \<noteq> (replicate 131072 0)[65536 := 1]"
proof
  assume "(replicate 131072 (0 :: u8))[1024 := 1] = (replicate 131072 0)[65536 := 1]"
  then have "(replicate 131072 (0 :: u8))[1024 := 1] ! 1024 = (replicate 131072 0)[65536 := 1] ! 1024"
    by (rule arg_cong)
  then show False
    by (simp add: nth_list_update)
qed

lemma transmute_program_rom_map:
  assumes "length rom = k * chunk_size" and "length rom < 2 ^ 32"
  shows "transmute_program_rom rom = Some (map (\<lambda>a. rom ! src_index a) [0..<length rom])"
proof -
  from transmute_program_rom_nth [OF assms] obtain out where
    r: "transmute_program_rom rom = Some out" and
    l: "length out = length rom" and
    n: "\<And>a. a < length rom \<Longrightarrow> out ! a = rom ! src_index a"
    by blast
  have "out = map (\<lambda>a. rom ! src_index a) [0..<length rom]"
    by (rule nth_equalityI) (simp_all add: l n)
  with r show ?thesis
    by simp
qed

lemma mset_permuted:
  assumes "bij_betw f {..<length xs} {..<length xs}"
  shows "mset (map (\<lambda>a. xs ! f a) [0..<length xs]) = mset xs"
proof -
  have inj: "inj_on f {0..<length xs}" and img: "f ` {0..<length xs} = {0..<length xs}"
    using assms by (simp_all add: bij_betw_def atLeast0LessThan)
  have "mset (map (\<lambda>a. xs ! f a) [0..<length xs])
      = image_mset ((!) xs) (image_mset f (mset_set {0..<length xs}))"
    by (simp add: multiset.map_comp comp_def)
  also have "image_mset f (mset_set {0..<length xs}) = mset_set {0..<length xs}"
    using inj by (simp only: image_mset_mset_set img)
  also have "image_mset ((!) xs) (mset_set {0..<length xs}) = mset (map ((!) xs) [0..<length xs])"
    by simp
  also have "\<dots> = mset xs"
    by (simp only: map_nth)
  finally show ?thesis .
qed

text \<open>
  Claim C3.  For a region made of whole chunks the transform returns, and its result
  stores at every position \<open>a\<close> the input byte of position \<open>src_index a\<close>; \<open>src_index\<close> is a
  bijection on the positions of the region, so every input byte is written to exactly one
  position and the result has the bytes of the input, each as often as the input has it.
\<close>

theorem transmute_is_permutation:
  assumes "length rom = k * chunk_size" and "length rom < 2 ^ 32"
  shows "transmute_program_rom rom = Some (map (\<lambda>a. rom ! src_index a) [0..<length rom]) \<and>
     bij_betw src_index {..<length rom} {..<length rom} \<and>
     map_option mset (transmute_program_rom rom) = Some (mset rom)"
proof -
  have m: "transmute_program_rom rom = Some (map (\<lambda>a. rom ! src_index a) [0..<length rom])"
    using assms by (rule transmute_program_rom_map)
  have b: "bij_betw src_index {..<length rom} {..<length rom}"
    unfolding assms(1) by (rule src_index_bij)
  have "mset (map (\<lambda>a. rom ! src_index a) [0..<length rom]) = mset rom"
    using b by (rule mset_permuted)
  then have "map_option mset (transmute_program_rom rom) = Some (mset rom)"
    by (simp only: m option.map)
  with m b show ?thesis
    by (intro conjI)
qed

theorem transmute_is_permutation_witness:
  "length ((replicate 131072 0)[65536 := (1 :: u8)]) = 1 * chunk_size \<and>
   length ((replicate 131072 0)[65536 := (1 :: u8)]) < 2 ^ 32 \<and>
   transmute_program_rom ((replicate 131072 0)[65536 := (1 :: u8)])
     = Some (map (\<lambda>a. (replicate 131072 0)[65536 := (1 :: u8)] ! src_index a)
          [0..<length ((replicate 131072 0)[65536 := (1 :: u8)])]) \<and>
   map (\<lambda>a. (replicate 131072 0)[65536 := (1 :: u8)] ! src_index a)
          [0..<length ((replicate 131072 0)[65536 := (1 :: u8)])]
     = (replicate 131072 0)[1024 := (1 :: u8)] \<and>
   (replicate 131072 0)[1024 := (1 :: u8)] \<noteq> (replicate 131072 0)[65536 := (1 :: u8)] \<and>
   bij_betw src_index {..<length ((replicate 131072 0)[65536 := (1 :: u8)])}
      {..<length ((replicate 131072 0)[65536 := (1 :: u8)])} \<and>
   map_option mset (transmute_program_rom ((replicate 131072 0)[65536 := (1 :: u8)]))
     = Some (mset ((replicate 131072 0)[65536 := (1 :: u8)]))"
proof -
  let ?R = "(replicate 131072 0)[65536 := (1 :: u8)]"
  have h1: "length ?R = 1 * chunk_size"
    by (simp add: chunk_size_def)
  have h2: "length ?R < 2 ^ 32"
    by simp
  note t = transmute_is_permutation [OF h1 h2]
  from t have m: "transmute_program_rom ?R = Some (map (\<lambda>a. ?R ! src_index a) [0..<length ?R])"
    by (elim conjE)
  from t have b: "bij_betw src_index {..<length ?R} {..<length ?R}"
    by (elim conjE)
  from t have s: "map_option mset (transmute_program_rom ?R) = Some (mset ?R)"
    by (elim conjE)
  have "Some (map (\<lambda>a. ?R ! src_index a) [0..<length ?R]) = Some ((replicate 131072 0)[1024 := (1 :: u8)])"
    using m by (simp only: transmute_unit_65536)
  then have e: "map (\<lambda>a. ?R ! src_index a) [0..<length ?R] = (replicate 131072 0)[1024 := (1 :: u8)]"
    by (simp only: option.inject)
  show ?thesis
    by (rule conjI [OF h1 conjI [OF h2 conjI [OF m conjI [OF e
          conjI [OF unit_image_moved conjI [OF b s]]]]]])
qed

lemma chunk_block_of:
  "transmuted_offset (of_nat (a mod chunk_size div block_size * block_size))
     = transmuted_offset (of_nat a)"
proof (rule toff_of_nat_cong9)
  let ?q = "a div 256 mod 512"
  have "a mod chunk_size div 256 = ?q"
    by (simp only: mod_chunk_split)
  then have "a mod chunk_size div block_size * block_size = ?q * 256"
    by (simp only: block_is_256)
  then show "a mod chunk_size div block_size * block_size div 256 mod 512 = a div 256 mod 512"
    by simp
qed

text \<open>
  Claim C4, as the source has it.  A chunk is \<open>0x20000\<close> bytes, which is 128 KiB, and has
  512 blocks of 256 bytes.  On a region made of whole chunks every chunk is treated the
  same way: the byte at position \<open>a\<close> comes from the chunk that holds \<open>a\<close>, from the
  permuted offset of the block of \<open>a\<close> in that chunk, at the place \<open>a\<close> has in its block.
\<close>

theorem transmute_chunks_and_blocks:
  assumes "length rom = k * chunk_size" and "length rom < 2 ^ 32"
  shows "chunk_size = 128 * 1024 \<and> block_size = 256 \<and> block_count = 512 \<and>
     transmute_program_rom rom = Some (map
       (\<lambda>a. take chunk_size (drop (a div chunk_size * chunk_size) rom) !
          (unat (transmuted_offset (of_nat (a mod chunk_size div block_size * block_size)))
             + a mod block_size))
       [0..<length rom])"
proof -
  have e: "rom ! src_index a
      = take chunk_size (drop (a div chunk_size * chunk_size) rom) !
          (unat (transmuted_offset (of_nat (a mod chunk_size div block_size * block_size)))
             + a mod block_size)" if a: "a < length rom" for a
  proof -
    let ?c = "a div chunk_size"
    let ?t = "unat (transmuted_offset (of_nat a))"
    let ?j = "a mod block_size"
    have "?j < block_size"
      using block_size_pos by simp
    then have in_chunk: "?t + ?j < chunk_size"
      using toff_bound [of "of_nat a"] by linarith
    have "?c * chunk_size \<le> a"
      by simp
    then have le: "?c * chunk_size \<le> length rom"
      using a by linarith
    have "take chunk_size (drop (?c * chunk_size) rom) ! (?t + ?j)
        = rom ! (?c * chunk_size + (?t + ?j))"
      using in_chunk le by simp
    then show ?thesis
      by (simp only: chunk_block_of src_index_def add.assoc)
  qed
  have "map (\<lambda>a. rom ! src_index a) [0..<length rom]
      = map (\<lambda>a. take chunk_size (drop (a div chunk_size * chunk_size) rom) !
          (unat (transmuted_offset (of_nat (a mod chunk_size div block_size * block_size)))
             + a mod block_size)) [0..<length rom]"
    by (rule map_cong [OF refl]) (simp add: e)
  then have "transmute_program_rom rom = Some (map
       (\<lambda>a. take chunk_size (drop (a div chunk_size * chunk_size) rom) !
          (unat (transmuted_offset (of_nat (a mod chunk_size div block_size * block_size)))
             + a mod block_size))
       [0..<length rom])"
    using transmute_program_rom_map [OF assms] by (simp only:)
  moreover have "chunk_size = 128 * 1024" and "block_size = 256" and "block_count = 512"
    by (simp_all add: chunk_size_def block_size_def block_count_def)
  ultimately show ?thesis
    by (intro conjI)
qed

theorem transmute_chunks_and_blocks_witness:
  "length ((replicate 262144 0)[196608 := (1 :: u8)]) = 2 * chunk_size \<and>
   length ((replicate 262144 0)[196608 := (1 :: u8)]) < 2 ^ 32 \<and>
   transmute_program_rom ((replicate 262144 0)[196608 := (1 :: u8)]) = Some (map
       (\<lambda>a. take chunk_size (drop (a div chunk_size * chunk_size)
                ((replicate 262144 0)[196608 := (1 :: u8)])) !
          (unat (transmuted_offset (of_nat (a mod chunk_size div block_size * block_size)))
             + a mod block_size))
       [0..<length ((replicate 262144 0)[196608 := (1 :: u8)])]) \<and>
   map (\<lambda>a. take chunk_size (drop (a div chunk_size * chunk_size)
                ((replicate 262144 0)[196608 := (1 :: u8)])) !
          (unat (transmuted_offset (of_nat (a mod chunk_size div block_size * block_size)))
             + a mod block_size))
       [0..<length ((replicate 262144 0)[196608 := (1 :: u8)])]
     = (replicate 262144 0)[132096 := (1 :: u8)]"
proof -
  let ?R = "(replicate 262144 0)[196608 := (1 :: u8)]"
  let ?F = "\<lambda>a. take chunk_size (drop (a div chunk_size * chunk_size) ?R) !
          (unat (transmuted_offset (of_nat (a mod chunk_size div block_size * block_size)))
             + a mod block_size)"
  have h1: "length ?R = 2 * chunk_size"
    by (simp add: chunk_size_def)
  have h2: "length ?R < 2 ^ 32"
    by simp
  from transmute_chunks_and_blocks [OF h1 h2]
  have m: "transmute_program_rom ?R = Some (map ?F [0..<length ?R])"
    by (elim conjE)
  have "Some (map ?F [0..<length ?R]) = Some ((replicate 262144 0)[132096 := (1 :: u8)])"
    using m by (simp only: transmute_unit_196608)
  then have e: "map ?F [0..<length ?R] = (replicate 262144 0)[132096 := (1 :: u8)]"
    by (simp only: option.inject)
  show ?thesis
    by (rule conjI [OF h1 conjI [OF h2 conjI [OF m e]]])
qed

text \<open>
  Claim C4 as the spec words it has chunks of 32 KiB.  In a region of \<open>0x20000\<close> bytes
  the byte at \<open>0x10000\<close> ends at \<open>0x400\<close>: it leaves the third stretch of 32 KiB for the
  first, so 32 KiB is not the unit within which blocks move.
\<close>

theorem transmute_chunk_size_counterexample:
  "chunk_size \<noteq> 32 * 1024 \<and>
   transmute_program_rom ((replicate 131072 0)[65536 := 1]) = Some ((replicate 131072 0)[1024 := 1])"
  by (simp add: transmute_unit_65536 chunk_size_def)




section \<open>Start-up and the interrupt hack\<close>

text \<open>
  Claim C7.  In \<^verbatim>\<open>ympss790.cpp\<close>, where the descrambling loop is inside a comment,
  \<^verbatim>\<open>driver_start\<close> returns the state it was given: the program region afterwards is
  the program region before.
\<close>

theorem driver_start_keeps_program_rom:
  assumes "memregion st ''program'' = Some rom"
  shows "driver_start st = Some st \<and>
     map_option (\<lambda>st'. memregion st' ''program'') (driver_start st) = Some (Some rom)"
  using assms by (simp add: driver_start_def)

theorem driver_start_keeps_program_rom_witness:
  "memregion \<lparr>maincpu = (\<lambda>e. 0), hack_timer = None, regions = [''program'' \<mapsto> [1, 2, 3]],
       machine_time = 0\<rparr> ''program'' = Some [1, 2, 3] \<and>
   map_option (\<lambda>st'. memregion st' ''program'')
     (driver_start \<lparr>maincpu = (\<lambda>e. 0), hack_timer = None,
        regions = [''program'' \<mapsto> [1, 2, 3]], machine_time = 0\<rparr>) = Some (Some [1, 2, 3])"
proof -
  have h: "memregion \<lparr>maincpu = (\<lambda>e. 0), hack_timer = None,
       regions = [''program'' \<mapsto> [1, 2, 3]], machine_time = 0\<rparr> ''program'' = Some [1, 2, 3]"
    by (simp add: memregion_def)
  from driver_start_keeps_program_rom [OF h] have
    "map_option (\<lambda>st'. memregion st' ''program'')
     (driver_start \<lparr>maincpu = (\<lambda>e. 0), hack_timer = None,
        regions = [''program'' \<mapsto> [1, 2, 3]], machine_time = 0\<rparr>) = Some (Some [1, 2, 3])"
    by (elim conjE)
  with h show ?thesis
    by (intro conjI)
qed

lemma run_timer_times:
  assumes "hack_timer st = Some t" and "enabled t"
  shows "map_option fst (run_timer n st) = Some (map (\<lambda>i. expire t + i * period t) [0..<n])"
  using assms
proof (induction n arbitrary: st t)
  case 0
  then show ?case by simp
next
  case (Suc n)
  let ?t' = "t\<lparr>expire := expire t + period t\<rparr>"
  let ?st' = "(interrupt_hack (st\<lparr>machine_time := expire t\<rparr>))\<lparr>hack_timer := Some ?t'\<rparr>"
  have e: "timer_expire st = Some (expire t, ?st')"
    using Suc.prems by (simp add: timer_expire_def)
  have "hack_timer ?st' = Some ?t'" and "enabled ?t'"
    using Suc.prems by simp_all
  then have "map_option fst (run_timer n ?st')
      = Some (map (\<lambda>i. expire ?t' + i * period ?t') [0..<n])"
    by (rule Suc.IH)
  then obtain ts st'' where
    r: "run_timer n ?st' = Some (ts, st'')" and
    ts: "ts = map (\<lambda>i. expire t + period t + i * period t) [0..<n]"
    by auto
  have "map (\<lambda>i. expire t + i * period t) [0..<Suc n]
      = expire t # map (\<lambda>i. expire t + Suc i * period t) [0..<n]"
    by (simp only: upt_conv_Cons [OF zero_less_Suc] list.map map_Suc_upt [symmetric] list.map_comp comp_def)
      simp
  also have "\<dots> = expire t # ts"
    by (simp add: ts add.assoc)
  finally show ?case
    by (simp add: e r)
qed

text \<open>
  Claim C8.  After \<^verbatim>\<open>machine_start\<close> the first \<open>n\<close> runs of the callback happen at 1, 2,
  \<open>\<dots>\<close>, \<open>n\<close> milliseconds after the time of the start, for every \<open>n\<close>: the timer never
  stops and no tick is left out.
\<close>

theorem hack_timer_fires_every_millisecond:
  "map_option fst (run_timer n (machine_start st))
     = Some (map (\<lambda>i. machine_time st + i * from_msec 1) [1..<Suc n])"
proof -
  let ?t = "adjust (machine_time st) (from_msec 1) 0 (from_msec 1) timer_alloc"
  have "hack_timer (machine_start st) = Some ?t" and "enabled ?t"
    by (simp_all add: machine_start_def adjust_def)
  then have "map_option fst (run_timer n (machine_start st))
      = Some (map (\<lambda>i. expire ?t + i * period ?t) [0..<n])"
    by (rule run_timer_times)
  also have "map (\<lambda>i. expire ?t + i * period ?t) [0..<n]
      = map (\<lambda>i. machine_time st + Suc i * from_msec 1) [0..<n]"
    by (simp add: adjust_def)
  also have "\<dots> = map (\<lambda>i. machine_time st + i * from_msec 1) [1..<Suc n]"
    by (simp only: One_nat_def map_Suc_upt [symmetric] list.map_comp comp_def)
  finally show ?thesis .
qed

text \<open>
  Claim C9.  After the callback, bit 3 of the interrupt-flag entry is set and every other
  bit of it is as before; every other state entry of the CPU, the timer, the regions and
  the clock are as before.
\<close>

theorem interrupt_hack_sets_bit_3:
  "(bit (state_int (maincpu (interrupt_hack st)) MN1880_IF) n \<longleftrightarrow>
      n = 3 \<or> bit (state_int (maincpu st) MN1880_IF) n) \<and>
   state_int (maincpu (interrupt_hack st)) (MN1880_other i) = state_int (maincpu st) (MN1880_other i) \<and>
   hack_timer (interrupt_hack st) = hack_timer st \<and>
   regions (interrupt_hack st) = regions st \<and>
   machine_time (interrupt_hack st) = machine_time st \<and>
   interrupt_hack st = st\<lparr>maincpu := maincpu (interrupt_hack st)\<rparr>"
proof -
  have "bit (push_bit 3 (1 :: u64)) n \<longleftrightarrow> n = 3"
    by (simp only: bit_push_bit_iff bit_1_iff) auto
  then have "bit (state_int (maincpu (interrupt_hack st)) MN1880_IF) n \<longleftrightarrow>
      n = 3 \<or> bit (state_int (maincpu st) MN1880_IF) n"
    by (auto simp add: interrupt_hack_def state_int_def set_state_int_def bit_or_iff
        simp del: push_bit_of_1)
  then show ?thesis
    by (simp add: interrupt_hack_def state_int_def set_state_int_def)
qed

end
